theory Spec2Isabelle
  imports Main
begin

section \<open>The windowed batch cache: \<open>MultiBatchBuffer\<close> of \<open>vbfml/util.py\<close>\<close>

text \<open>
  The Python exceptions the modelled code can raise. \<open>IndexError\<close> is raised explicitly by
  \<open>get_batch_df\<close>; \<open>ZeroDivisionError\<close> is what the integer floor division \<open>//\<close> raises on a
  zero divisor; \<open>TypeError\<close> is what \<open>len(None)\<close> raises; \<open>EOFError\<close> is the end-of-data
  error of the reader.
\<close>

datatype error = IndexError | ZeroDivisionError | TypeError | EOFError

text \<open>
  A \<open>pandas.DataFrame\<close> is modelled as the list of its rows, in physical order, carrying
  the default integer index \<open>0, 1, ..., len - 1\<close> (row \<open>k\<close> of the list has label \<open>k\<close>).
  \<open>len(df)\<close> is the length of the list. The field \<open>df\<close> may be \<open>None\<close>, hence the option.

  \<^verbatim>\<open>
  @dataclass
  class MultiBatchBuffer:
      df: pd.DataFrame = None
      batch_size: int = 1
      min_batch: int = -1
      max_batch: int = -1
  \<close>
\<close>

record 'r MultiBatchBuffer =
  df :: "'r list option"
  batch_size :: int
  min_batch :: int
  max_batch :: int

text \<open>
  The dataclass constructor with the defaults of \<open>df\<close>, \<open>min_batch\<close> and \<open>max_batch\<close>;
  the batch size is the one field a caller configures (its default is 1).
\<close>

definition new_buffer :: "int \<Rightarrow> 'r MultiBatchBuffer" where
  "new_buffer bs = \<lparr>df = None, batch_size = bs, min_batch = - 1, max_batch = - 1\<rparr>"

text \<open>
  Python's \<open>a // b\<close> on integers: floor division, raising on a zero divisor. HOL's \<open>div\<close>
  on \<open>int\<close> rounds towards minus infinity as well, but returns 0 for a zero divisor.
\<close>

definition floordiv :: "int \<Rightarrow> int \<Rightarrow> error + int" where
  "floordiv a b = (if b = 0 then Inl ZeroDivisionError else Inr (a div b))"

text \<open>
  \<^verbatim>\<open>
  def set_multibatch(self, df, min_batch):
      self.df = df
      self.min_batch = min_batch
      self.max_batch = min_batch + len(df) // self.batch_size
  \<close>
  The three assignments run in order, so when the division raises, the first two have
  already happened: the state returned next to the error is the state the caller is left
  with.
\<close>

definition set_multibatch ::
  "'r MultiBatchBuffer \<Rightarrow> 'r list \<Rightarrow> int \<Rightarrow> (error + unit) \<times> 'r MultiBatchBuffer" where
  "set_multibatch self d mb =
     (let self1 = self\<lparr>df := Some d\<rparr>;
          self2 = self1\<lparr>min_batch := mb\<rparr>
      in case floordiv (int (length d)) (batch_size self2) of
           Inl e \<Rightarrow> (Inl e, self2)
         | Inr q \<Rightarrow> (Inr (), self2\<lparr>max_batch := mb + q\<rparr>))"

text \<open>
  \<^verbatim>\<open>
  def __contains__(self, batch_index):
      if self.df is None:
          return False
      if not len(self.df):
          return False
      if batch_index < 0:
          return False
      return self.min_batch <= batch_index <= self.max_batch
  \<close>
  The method only reads \<open>self\<close>; like every method of the model it returns the state it
  leaves behind next to its result.
\<close>

definition contains :: "'r MultiBatchBuffer \<Rightarrow> int \<Rightarrow> bool \<times> 'r MultiBatchBuffer" where
  "contains self batch_index =
     (case df self of
        None \<Rightarrow> (False, self)
      | Some d \<Rightarrow>
          if length d = 0 then (False, self)
          else if batch_index < 0 then (False, self)
          else (min_batch self \<le> batch_index \<and> batch_index \<le> max_batch self, self))"

text \<open>
  \<^verbatim>\<open>
  def clear(self):
      self.df = None
      self.min_batch = -1
      self.max_batch = -1
  \<close>
\<close>

definition clear :: "'r MultiBatchBuffer \<Rightarrow> 'r MultiBatchBuffer" where
  "clear self = self\<lparr>df := None, min_batch := - 1, max_batch := - 1\<rparr>"

text \<open>
  \<open>df.loc[a:b]\<close> is a slice by \<^emph>\<open>label\<close>, and pandas includes both end points in a label
  slice. On the default integer index the labels are the positions, the index is sorted,
  and bounds that are not labels of the frame are allowed: the result is the rows whose
  label \<open>l\<close> satisfies \<open>a \<le> l \<le> b\<close>, in order.
\<close>

definition loc_slice :: "int \<Rightarrow> int \<Rightarrow> 'r list \<Rightarrow> 'r list" where
  "loc_slice a b d =
     map snd (filter (\<lambda>(l, r). a \<le> int l \<and> int l \<le> b) (enumerate 0 d))"

text \<open>
  \<^verbatim>\<open>
  def get_batch_df(self, batch_index):
      if not batch_index in self:
          raise IndexError(f"Batch index '{batch_index}' not in current buffer.")

      row_start = batch_index - self.min_batch
      row_stop = min(row_start + self.batch_size, len(self.df))
      return self.df.loc[row_start:row_stop]
  \<close>
  The \<open>None\<close> branch of the second \<open>case\<close> is the \<open>TypeError\<close> that \<open>len(self.df)\<close> raises
  when \<open>self.df\<close> is \<open>None\<close>.
\<close>

definition get_batch_df ::
  "'r MultiBatchBuffer \<Rightarrow> int \<Rightarrow> (error + 'r list) \<times> 'r MultiBatchBuffer" where
  "get_batch_df self batch_index =
     (let (present, self1) = contains self batch_index
      in if \<not> present then (Inl IndexError, self1)
         else
           (case df self1 of
              None \<Rightarrow> (Inl TypeError, self1)
            | Some d \<Rightarrow>
                let row_start = batch_index - min_batch self1;
                    row_stop = min (row_start + batch_size self1) (int (length d))
                in (Inr (loc_slice row_start row_stop d), self1)))"

text \<open>
  The window a caller gets by constructing a buffer with batch size \<open>bs\<close> and filling it
  once: \<open>buf = MultiBatchBuffer(batch_size=bs); buf.set_multibatch(t, mb)\<close>.
\<close>

definition filled_buffer :: "int \<Rightarrow> 'r list \<Rightarrow> int \<Rightarrow> 'r MultiBatchBuffer" where
  "filled_buffer bs t mb = snd (set_multibatch (new_buffer bs) t mb)"

text \<open>A table of 20 rows; row \<open>k\<close> holds the number \<open>k\<close>.\<close>

definition table20 :: "nat list" where
  "table20 = [0, 1, 2, 3, 4, 5, 6, 7, 8, 9, 10, 11, 12, 13, 14, 15, 16, 17, 18, 19]"

section \<open>The multi-file reader\<close>

text \<open>
  Modelled from the spec: the reader \<open>SingleDatasetGeneratorUproot\<close> of
  \<open>vbfml/input/datagen.py\<close> (the spec's MultiFileCursor and BatchedDatasetReader) is not
  among the sources; only its test \<open>vbfml/tests/test_datagen.py\<close> is. The definitions of
  this section follow sections 3, 4.1 and 4.2 of the specification.

  A backing file is the list of its rows in on-file physical order; the storage backend's
  \<open>row_count()\<close> is the length of the list and reading rows \<open>[start, stop)\<close> is
  \<open>take (stop - start) (drop start f)\<close>. The file list is fixed; the cursor position is the
  pair \<open>(file_index, intra_file_row_offset)\<close>.
\<close>

record 'r MultiFileCursor =
  files :: "'r list list"
  file_index :: nat
  intra_file_row_offset :: nat

text \<open>
  Modelled from the spec: the cursor of a newly constructed reader (the constructor is
  in the missing \<open>vbfml/input/datagen.py\<close>), at the first row of the first file.
\<close>

definition new_cursor :: "'r list list \<Rightarrow> 'r MultiFileCursor" where
  "new_cursor fs = \<lparr>files = fs, file_index = 0, intra_file_row_offset = 0\<rparr>"

text \<open>
  Modelled from the spec: the loop of \<open>read_rows\<close> (section 4.1, Behavior), whose code
  is in the missing \<open>vbfml/input/datagen.py\<close>. It pulls rows
  from the file at the current index starting at the current offset; a file that is
  exhausted by the request makes the index advance and the offset reset to 0; the loop
  goes on until \<open>n\<close> rows are collected (\<open>Some\<close>: the rows and the position reached) or no
  files remain (\<open>None\<close>). A request for no rows is a no-op (section 9).
\<close>

function pull_rows ::
  "'r list list \<Rightarrow> nat \<Rightarrow> nat \<Rightarrow> nat \<Rightarrow> 'r list \<Rightarrow> ('r list \<times> nat \<times> nat) option" where
  "pull_rows fs fi off n acc =
     (if n = 0 then Some (acc, fi, off)
      else if length fs \<le> fi then None
      else
        let avail = length (fs ! fi) - off
        in if n < avail then Some (acc @ take n (drop off (fs ! fi)), fi, off + n)
           else pull_rows fs (Suc fi) 0 (n - avail) (acc @ drop off (fs ! fi)))"
  by pat_completeness auto
termination
  by (relation "measure (\<lambda>(fs, fi, off, n, acc). length fs - fi)") auto

declare pull_rows.simps [simp del]

text \<open>
  Modelled from the spec: \<open>read_rows\<close> (section 4.1, Overflow policy and Side effect on
  success), whose code is in the missing \<open>vbfml/input/datagen.py\<close>. The operation is all-or-nothing: when the loop runs out of files the call
  fails with the end-of-data error and the cursor is the one the call started from; on
  success the cursor holds the position the loop reached.
\<close>

definition read_rows ::
  "'r MultiFileCursor \<Rightarrow> nat \<Rightarrow> (error + 'r list) \<times> 'r MultiFileCursor" where
  "read_rows c n =
     (case pull_rows (files c) (file_index c) (intra_file_row_offset c) n [] of
        None \<Rightarrow> (Inl EOFError, c)
      | Some (rows, fi, off) \<Rightarrow>
          (Inr rows, c\<lparr>file_index := fi, intra_file_row_offset := off\<rparr>))"

text \<open>
  Modelled from the spec: the state of the BatchedDatasetReader (section 3), declared in
  the missing \<open>vbfml/input/datagen.py\<close>. A row gives a value to every column name; the
  schema is the ordered feature columns and the one label column.
\<close>

type_synonym 'v row = "string \<Rightarrow> 'v"

record 'v BatchedDatasetReader =
  cursor :: "'v row MultiFileCursor"
  feature_columns :: "string list"
  label_column :: string

definition new_reader :: "'v row list list \<Rightarrow> string list \<Rightarrow> string \<Rightarrow> 'v BatchedDatasetReader" where
  "new_reader fs branches label =
     \<lparr>cursor = new_cursor fs, feature_columns = branches, label_column = label\<rparr>"

text \<open>
  Modelled from the spec: \<open>read_events\<close> (section 4.2), whose code is in the missing
  \<open>vbfml/input/datagen.py\<close>. It delegates to \<open>read_rows\<close>, passes its failure on
  unchanged, and on success splits each row into its feature values and its label value,
  keeping row order.
\<close>

definition read_events ::
  "'v BatchedDatasetReader \<Rightarrow> nat
     \<Rightarrow> (error + 'v list list \<times> 'v list list) \<times> 'v BatchedDatasetReader" where
  "read_events rd n =
     (case read_rows (cursor rd) n of
        (Inl e, c) \<Rightarrow> (Inl e, rd\<lparr>cursor := c\<rparr>)
      | (Inr rows, c) \<Rightarrow>
          (Inr (map (\<lambda>r. map r (feature_columns rd)) rows,
                map (\<lambda>r. [r (label_column rd)]) rows),
           rd\<lparr>cursor := c\<rparr>))"

text \<open>The shape \<open>(rows, columns)\<close> of an array given as the list of its rows.\<close>

definition has_shape :: "'a list list \<Rightarrow> nat \<Rightarrow> nat \<Rightarrow> bool" where
  "has_shape m r k = (length m = r \<and> list_all (\<lambda>x. length x = k) m)"

text \<open>
  Modelled from the spec: the logical read position and the valid cursor positions
  (section 3), which the missing \<open>vbfml/input/datagen.py\<close> keeps implicit. The logical
  read position of a cursor is the number of rows before it: all rows of the
  files before \<open>file_index\<close> and \<open>intra_file_row_offset\<close> rows of the current file. A
  position is valid (section 3) when the index is within the file list with the offset
  within that file, or the index is the length of the list (exhausted).
\<close>

definition total_rows :: "'r list list \<Rightarrow> nat" where
  "total_rows fs = length (concat fs)"

definition rows_consumed :: "'r MultiFileCursor \<Rightarrow> nat" where
  "rows_consumed c = total_rows (take (file_index c) (files c)) + intra_file_row_offset c"

definition rows_remaining :: "'r MultiFileCursor \<Rightarrow> nat" where
  "rows_remaining c = total_rows (files c) - rows_consumed c"

definition position_ok :: "'r list list \<Rightarrow> nat \<Rightarrow> nat \<Rightarrow> bool" where
  "position_ok fs fi off =
     (if fi < length fs then off \<le> length (fs ! fi) else fi = length fs \<and> off = 0)"

definition cursor_ok :: "'r MultiFileCursor \<Rightarrow> bool" where
  "cursor_ok c = position_ok (files c) (file_index c) (intra_file_row_offset c)"

text \<open>A sequence of reads, one after the other, stopping at the first that fails.\<close>

fun read_many ::
  "'r MultiFileCursor \<Rightarrow> nat list \<Rightarrow> (error + 'r list list) \<times> 'r MultiFileCursor" where
  "read_many c [] = (Inr [], c)"
| "read_many c (n # ns) =
     (case read_rows c n of
        (Inl e, c1) \<Rightarrow> (Inl e, c1)
      | (Inr t, c1) \<Rightarrow>
          (case read_many c1 ns of
             (Inl e, c2) \<Rightarrow> (Inl e, c2)
           | (Inr ts, c2) \<Rightarrow> (Inr (t # ts), c2)))"

text \<open>
  The fixture of \<open>vbfml/tests/test_datagen.py\<close>: two files of 10 events each, read with
  the two branches \<open>a\<close> and \<open>b\<close>. Event \<open>k\<close> is the row whose every column holds \<open>k\<close>; the
  name of the label column is not fixed by the test.
\<close>

definition test_files :: "nat list list" where
  "test_files = [[0, 1, 2, 3, 4, 5, 6, 7, 8, 9], [10, 11, 12, 13, 14, 15, 16, 17, 18, 19]]"

definition test_events :: "nat row list list" where
  "test_events = map (map (\<lambda>k column. k)) test_files"

definition test_reader :: "nat BatchedDatasetReader" where
  "test_reader = new_reader test_events [''a'', ''b''] ''label''"

section \<open>Properties of the windowed batch cache\<close>

subsection \<open>Auxiliary facts\<close>

text \<open>
  A label slice of a frame with the default index, with a non-negative start, is a
  positional slice that includes the stop label: \<open>b + 1 - a\<close> rows from position \<open>a\<close>.
\<close>

lemma filter_enumerate_window:
  "map snd (filter (\<lambda>(l, r). a \<le> int l \<and> int l \<le> b) (enumerate k d)) =
     take (nat (b + 1 - max a (int k))) (drop (nat (a - int k)) d)"
proof (induction d arbitrary: k)
  case Nil
  show ?case by simp
next
  case (Cons x xs)
  consider (inside) "a \<le> int k" "int k \<le> b" | (before) "int k < a"
    | (after) "a \<le> int k" "b < int k"
    by linarith
  then show ?case
  proof cases
    case inside
    then have "nat (b + 1 - int k) = Suc (nat (b - int k))" by linarith
    with inside show ?thesis using Cons.IH [of "Suc k"]
      by (simp add: max_def)
  next
    case before
    then have m: "max a (int (Suc k)) = a"
      and d: "nat (a - int k) = Suc (nat (a - int (Suc k)))"
      by linarith+
    have "map snd (filter (\<lambda>(l, r). a \<le> int l \<and> int l \<le> b) (enumerate k (x # xs))) =
            map snd (filter (\<lambda>(l, r). a \<le> int l \<and> int l \<le> b) (enumerate (Suc k) xs))"
      using before by simp
    also have "\<dots> = take (nat (b + 1 - a)) (drop (nat (a - int (Suc k))) xs)"
      using Cons.IH [of "Suc k"] by (simp only: m)
    also have "\<dots> = take (nat (b + 1 - max a (int k))) (drop (nat (a - int k)) (x # xs))"
      using before by (simp only: d drop_Suc_Cons) (simp add: max_def)
    finally show ?thesis .
  next
    case after
    with Cons.IH [of "Suc k"] show ?thesis by (simp add: max_def)
  qed
qed

lemma loc_slice_take_drop:
  "0 \<le> a \<Longrightarrow> loc_slice a b d = take (nat (b + 1 - a)) (drop (nat a) d)"
  using filter_enumerate_window [of a b 0 d] by (simp add: loc_slice_def max_def)

lemma contains_unfold:
  "contains w i =
     ((\<exists>d. df w = Some d \<and> d \<noteq> []) \<and> 0 \<le> i \<and> min_batch w \<le> i \<and> i \<le> max_batch w, w)"
  by (auto simp: contains_def split: option.splits)

lemma filled_buffer_eq:
  "bs \<noteq> 0 \<Longrightarrow> filled_buffer bs t mb =
     \<lparr>df = Some t, batch_size = bs, min_batch = mb, max_batch = mb + int (length t) div bs\<rparr>"
  by (simp add: filled_buffer_def set_multibatch_def new_buffer_def floordiv_def)

text \<open>
  What \<open>get_batch_df\<close> returns for a batch index of the window: the rows at positions
  \<open>row_start, ..., row_stop\<close>, the row at \<open>row_stop\<close> included when there is one.
\<close>

lemma get_batch_df_rows:
  assumes "fst (contains w i)"
  shows "\<exists>d. df w = Some d \<and>
           get_batch_df w i =
             (Inr (take (nat (min (i - min_batch w + batch_size w) (int (length d)) + 1
                               - (i - min_batch w)))
                        (drop (nat (i - min_batch w)) d)), w)"
proof -
  from assms obtain d where d: "df w = Some d" and lo: "min_batch w \<le> i"
    by (auto simp: contains_unfold)
  have "0 \<le> i - min_batch w" using lo by simp
  then show ?thesis
    using assms d by (simp add: get_batch_df_def contains_unfold loc_slice_take_drop Let_def)
qed

subsection \<open>Filling the window\<close>

text \<open>
  Claim C4. For every table and every \<open>min_batch_index\<close>, on a buffer configured with a
  positive batch size, \<open>set_multibatch\<close> succeeds and replaces the whole window: the
  cached table is the new table, \<open>min_batch\<close> is the given index and
  \<open>max_batch = min_batch + floor(len(table) / batch_size)\<close>; the batch size stays.
\<close>

theorem set_multibatch_replaces_window:
  assumes "0 < batch_size self"
  shows "set_multibatch self d mb =
           (Inr (), \<lparr>df = Some d, batch_size = batch_size self, min_batch = mb,
                     max_batch = mb + int (length d) div batch_size self\<rparr>)"
  using assms by (simp add: set_multibatch_def floordiv_def)

theorem set_multibatch_replaces_window_witness:
  "0 < batch_size (new_buffer 2 :: nat MultiBatchBuffer) \<and>
   set_multibatch (new_buffer 2) [10, 11, 12, 13, 14 :: nat] 7 =
     (Inr (), \<lparr>df = Some [10, 11, 12, 13, 14], batch_size = 2, min_batch = 7,
               max_batch = 9\<rparr>)"
  using set_multibatch_replaces_window [of "new_buffer 2" "[10, 11, 12, 13, 14 :: nat]" 7]
  by (simp add: new_buffer_def)

text \<open>
  Claim C8, as stated: a batch size of 0 or less is rejected by \<open>set_multibatch\<close>. It is
  not: the method never looks at the sign of the batch size. A buffer with batch size
  \<open>-1\<close> takes a table of two rows and returns normally, with \<open>max_batch = 0 + 2 // -1 = -2\<close>.
\<close>

theorem negative_batch_size_accepted:
  "batch_size (new_buffer (- 1) :: nat MultiBatchBuffer) \<le> 0 \<and>
   set_multibatch (new_buffer (- 1)) [10, 11 :: nat] 0 =
     (Inr (), \<lparr>df = Some [10, 11], batch_size = - 1, min_batch = 0, max_batch = - 2\<rparr>)"
  by (simp add: new_buffer_def set_multibatch_def floordiv_def)

text \<open>
  Claim C8, amended. \<open>set_multibatch\<close> does not validate the batch size. With a batch
  size of 0 the call fails, with the \<open>ZeroDivisionError\<close> of the floor division; with a
  negative batch size the call succeeds and stores the table, \<open>min_batch\<close> and
  \<open>max_batch = min_batch + floor(len(table) / batch_size)\<close>.
\<close>

theorem set_multibatch_nonpositive_batch_size:
  assumes "batch_size w \<le> 0"
  shows "(batch_size w = 0 \<longrightarrow> fst (set_multibatch w d mb) = Inl ZeroDivisionError) \<and>
         (batch_size w < 0 \<longrightarrow>
            set_multibatch w d mb =
              (Inr (), \<lparr>df = Some d, batch_size = batch_size w, min_batch = mb,
                        max_batch = mb + int (length d) div batch_size w\<rparr>))"
  by (simp add: set_multibatch_def floordiv_def)

theorem set_multibatch_nonpositive_batch_size_witness:
  "batch_size (new_buffer 0 :: nat MultiBatchBuffer) \<le> 0 \<and>
   fst (set_multibatch (new_buffer 0) [10, 11 :: nat] 5) = Inl ZeroDivisionError \<and>
   batch_size (new_buffer (- 3) :: nat MultiBatchBuffer) \<le> 0 \<and>
   set_multibatch (new_buffer (- 3)) [10, 11, 12, 13 :: nat] 5 =
     (Inr (), \<lparr>df = Some [10, 11, 12, 13], batch_size = - 3, min_batch = 5, max_batch = 3\<rparr>)"
  using set_multibatch_nonpositive_batch_size [of "new_buffer 0" "[10, 11 :: nat]" 5]
    set_multibatch_nonpositive_batch_size [of "new_buffer (- 3)" "[10, 11, 12, 13 :: nat]" 5]
  by (simp add: new_buffer_def)

subsection \<open>Membership\<close>

text \<open>
  Claim C6. \<open>contains\<close> is false when the window is empty (\<open>df\<close> is \<open>None\<close>), when the
  cached table has no rows, when the batch index is negative, and when the batch index
  is outside \<open>[min_batch, max_batch]\<close>; it is true otherwise. On a freshly constructed
  buffer and on a cleared one it is false for every index. It leaves the window state
  as it was.
\<close>

theorem contains_cases:
  "(df w = None \<longrightarrow> \<not> fst (contains w i)) \<and>
   (df w = Some [] \<longrightarrow> \<not> fst (contains w i)) \<and>
   (i < 0 \<longrightarrow> \<not> fst (contains w i)) \<and>
   (i < min_batch w \<or> max_batch w < i \<longrightarrow> \<not> fst (contains w i)) \<and>
   ((\<exists>d. df w = Some d \<and> d \<noteq> []) \<and> 0 \<le> i \<and> min_batch w \<le> i \<and> i \<le> max_batch w
      \<longrightarrow> fst (contains w i)) \<and>
   \<not> fst (contains (new_buffer bs :: 'r MultiBatchBuffer) i) \<and>
   \<not> fst (contains (clear w) i) \<and>
   snd (contains w i) = (w :: 'r MultiBatchBuffer)"
  by (auto simp: contains_unfold new_buffer_def clear_def)

theorem contains_cases_witness:
  "fst (contains (filled_buffer 2 [10, 11, 12 :: nat] 3) 4) \<and>
   \<not> fst (contains (filled_buffer 2 [10, 11, 12 :: nat] 3) 5) \<and>
   \<not> fst (contains (filled_buffer 2 [10, 11, 12 :: nat] 3) 2) \<and>
   \<not> fst (contains (filled_buffer 2 [10 :: nat] (- 4)) (- 4)) \<and>
   \<not> fst (contains (filled_buffer 2 ([] :: nat list) 3) 3) \<and>
   \<not> fst (contains (new_buffer 2 :: nat MultiBatchBuffer) 0) \<and>
   \<not> fst (contains (clear (filled_buffer 2 [10, 11, 12 :: nat] 3)) 4) \<and>
   snd (contains (filled_buffer 2 [10, 11, 12 :: nat] 3) 4) = filled_buffer 2 [10, 11, 12] 3"
  using contains_cases [of "filled_buffer 2 [10, 11, 12 :: nat] 3" 4 2]
    contains_cases [of "filled_buffer 2 [10, 11, 12 :: nat] 3" 5 2]
    contains_cases [of "filled_buffer 2 [10, 11, 12 :: nat] 3" 2 2]
    contains_cases [of "filled_buffer 2 [10 :: nat] (- 4)" "- 4" 2]
    contains_cases [of "filled_buffer 2 ([] :: nat list) 3" 3 2]
    contains_cases [of "new_buffer 2 :: nat MultiBatchBuffer" 0 2]
  by (simp add: filled_buffer_eq new_buffer_def)

subsection \<open>Serving a batch\<close>

text \<open>
  Claim C7. \<open>get_batch_df\<close> raises, and what it raises is \<open>IndexError\<close>, exactly when
  \<open>contains\<close> is false for the batch index; when it raises, the window state (cached
  table, batch size, \<open>min_batch\<close>, \<open>max_batch\<close>) is the one before the call.
\<close>

theorem get_batch_df_raises_iff:
  "(fst (get_batch_df w i) = Inl IndexError) = (\<not> fst (contains w i)) \<and>
   (isl (fst (get_batch_df w i))) = (\<not> fst (contains w i)) \<and>
   (isl (fst (get_batch_df w i)) \<longrightarrow> snd (get_batch_df w i) = w)"
  by (auto simp: get_batch_df_def contains_unfold Let_def split: option.splits if_splits)

theorem get_batch_df_raises_iff_witness:
  "\<not> fst (contains (filled_buffer 2 [10, 11, 12 :: nat] 3) 5) \<and>
   isl (fst (get_batch_df (filled_buffer 2 [10, 11, 12 :: nat] 3) 5)) \<and>
   fst (get_batch_df (filled_buffer 2 [10, 11, 12 :: nat] 3) 5) = Inl IndexError \<and>
   snd (get_batch_df (filled_buffer 2 [10, 11, 12 :: nat] 3) 5) =
     filled_buffer 2 [10, 11, 12] 3 \<and>
   fst (contains (filled_buffer 2 [10, 11, 12 :: nat] 3) 4) \<and>
   \<not> isl (fst (get_batch_df (filled_buffer 2 [10, 11, 12 :: nat] 3) 4))"
  using get_batch_df_raises_iff [of "filled_buffer 2 [10, 11, 12 :: nat] 3" 5]
    get_batch_df_raises_iff [of "filled_buffer 2 [10, 11, 12 :: nat] 3" 4]
  by (simp add: filled_buffer_eq contains_unfold)

text \<open>
  Claim C5, at a concrete window. The buffer has batch size 1 and the three rows
  \<open>10, 11, 12\<close> from batch index 0. For batch index 0 the claim gives \<open>row_start = 0\<close>,
  \<open>row_stop = min(0 + 1, 3) = 1\<close> and the half-open range \<open>[0, 1)\<close>, the single row \<open>10\<close>.
  \<open>get_batch_df\<close> returns the rows \<open>10\<close> and \<open>11\<close>: the label slice \<open>df.loc[0:1]\<close> includes
  the row at \<open>row_stop\<close>.
\<close>

theorem get_batch_df_includes_row_stop:
  "fst (contains (filled_buffer 1 [10, 11, 12 :: nat] 0) 0) \<and>
   fst (get_batch_df (filled_buffer 1 [10, 11, 12 :: nat] 0) 0) = Inr [10, 11]"
  by code_simp

text \<open>
  Claim C3, on the code. A buffer of batch size 10 is filled with a table of 20 rows from
  batch index 3. The claim: \<open>max_batch\<close> is 4, \<open>contains(5)\<close> is false and \<open>get_batch_df(4)\<close>
  is rows 10 to 19, the second of two batches that do not overlap. The code:
  \<open>max_batch = 3 + 20 // 10 = 5\<close> and \<open>contains(5)\<close> is true; \<open>row_start\<close> is the batch
  difference \<open>batch_index - min_batch\<close>, not multiplied by the batch size, so
  \<open>get_batch_df\<close> returns rows 0 to 10 for batch 3, rows 1 to 11 for batch 4 and rows 2
  to 12 for batch 5, and not the rows 10 to 19 for batch 4.
\<close>

theorem window20_code_behaviour:
  "max_batch (filled_buffer 10 table20 3) = 5 \<and>
   max_batch (filled_buffer 10 table20 3) \<noteq> 4 \<and>
   fst (contains (filled_buffer 10 table20 3) 5) \<and>
   fst (get_batch_df (filled_buffer 10 table20 3) 3) = Inr [0, 1, 2, 3, 4, 5, 6, 7, 8, 9, 10] \<and>
   fst (get_batch_df (filled_buffer 10 table20 3) 4) = Inr [1, 2, 3, 4, 5, 6, 7, 8, 9, 10, 11] \<and>
   fst (get_batch_df (filled_buffer 10 table20 3) 5) = Inr [2, 3, 4, 5, 6, 7, 8, 9, 10, 11, 12] \<and>
   fst (get_batch_df (filled_buffer 10 table20 3) 4) \<noteq> Inr (take 10 (drop 10 table20))"
  by code_simp

text \<open>
  Claim C10. On a buffer with a positive batch size, after \<open>set_multibatch\<close> with a table
  of no rows, \<open>max_batch\<close> equals \<open>min_batch\<close>, the given index (the bounds are not the
  empty window's \<open>-1\<close>); still \<open>contains\<close> is false for every batch index and
  \<open>get_batch_df\<close> raises \<open>IndexError\<close> for every batch index.
\<close>

theorem set_multibatch_empty_table:
  assumes "0 < batch_size w"
  shows "fst (set_multibatch w [] mb) = Inr () \<and>
         min_batch (snd (set_multibatch w [] mb)) = mb \<and>
         max_batch (snd (set_multibatch w [] mb)) = mb \<and>
         \<not> fst (contains (snd (set_multibatch w [] mb)) i) \<and>
         fst (get_batch_df (snd (set_multibatch w [] mb)) i) = Inl IndexError"
  using assms
  by (simp add: set_multibatch_def floordiv_def get_batch_df_def contains_unfold)

theorem set_multibatch_empty_table_witness:
  "0 < batch_size (new_buffer 10 :: nat MultiBatchBuffer) \<and>
   fst (set_multibatch (new_buffer 10 :: nat MultiBatchBuffer) [] 3) = Inr () \<and>
   min_batch (snd (set_multibatch (new_buffer 10 :: nat MultiBatchBuffer) [] 3)) = 3 \<and>
   max_batch (snd (set_multibatch (new_buffer 10 :: nat MultiBatchBuffer) [] 3)) = 3 \<and>
   \<not> fst (contains (snd (set_multibatch (new_buffer 10 :: nat MultiBatchBuffer) [] 3)) 3) \<and>
   fst (get_batch_df (snd (set_multibatch (new_buffer 10 :: nat MultiBatchBuffer) [] 3)) 3) =
     Inl IndexError"
  using set_multibatch_empty_table [of "new_buffer 10 :: nat MultiBatchBuffer" 3 3]
  by (simp add: new_buffer_def)

section \<open>Properties of the multi-file reader\<close>

subsection \<open>The loop\<close>

lemma concat_drop_at:
  assumes "fi < length fs"
  shows "concat (drop fi fs) = fs ! fi @ concat (drop (Suc fi) fs)"
  using assms by (simp add: Cons_nth_drop_Suc [symmetric])

lemma total_rows_take_Suc:
  assumes "fi < length fs"
  shows "total_rows (take (Suc fi) fs) = total_rows (take fi fs) + length (fs ! fi)"
  using assms by (simp add: total_rows_def take_Suc_conv_app_nth)

lemma position_ok_next: "fi < length fs \<Longrightarrow> position_ok fs (Suc fi) 0"
  by (auto simp: position_ok_def)

text \<open>
  The loop succeeds exactly when the rows left from the position on are enough, and then
  returns the next \<open>n\<close> rows of the concatenated files and a valid position \<open>n\<close> rows
  further.
\<close>

lemma pull_rows_enough:
  assumes "position_ok fs fi off" and "n \<le> length (concat (drop fi fs)) - off"
  shows "\<exists>fi' off'.
           pull_rows fs fi off n acc =
             Some (acc @ take n (drop off (concat (drop fi fs))), fi', off') \<and>
           position_ok fs fi' off' \<and>
           total_rows (take fi' fs) + off' = total_rows (take fi fs) + off + n"
  using assms
proof (induction fs fi off n acc rule: pull_rows.induct)
  case (1 fs fi off n acc)
  show ?case
  proof (cases "n = 0")
    case True
    with "1.prems" show ?thesis by (simp add: pull_rows.simps)
  next
    case n: False
    show ?thesis
    proof (cases "length fs \<le> fi")
      case True
      with "1.prems" n show ?thesis by simp
    next
      case False
      then have fi: "fi < length fs" by simp
      with "1.prems"(1) have off: "off \<le> length (fs ! fi)"
        by (simp add: position_ok_def)
      let ?f = "fs ! fi"
      let ?avail = "length ?f - off"
      have cat: "drop off (concat (drop fi fs)) = drop off ?f @ concat (drop (Suc fi) fs)"
        using off by (simp add: concat_drop_at [OF fi])
      have len: "length (concat (drop fi fs)) - off = ?avail + length (concat (drop (Suc fi) fs))"
        using off by (simp add: concat_drop_at [OF fi])
      show ?thesis
      proof (cases "n < ?avail")
        case True
        then have "pull_rows fs fi off n acc = Some (acc @ take n (drop off ?f), fi, off + n)"
          using n fi by (simp add: pull_rows.simps)
        moreover have "take n (drop off (concat (drop fi fs))) = take n (drop off ?f)"
          using True by (simp add: cat)
        moreover have "position_ok fs fi (off + n)"
          using True fi by (simp add: position_ok_def)
        ultimately show ?thesis by simp
      next
        case ge: False
        have step: "pull_rows fs fi off n acc =
                      pull_rows fs (Suc fi) 0 (n - ?avail) (acc @ drop off ?f)"
          using n fi ge by (subst pull_rows.simps) simp
        have le': "n - ?avail \<le> length (concat (drop (Suc fi) fs)) - 0"
          using "1.prems"(2) len by simp
        from "1.IH" [OF n False refl ge position_ok_next [OF fi] le']
        obtain fi' off' where
          r: "pull_rows fs (Suc fi) 0 (n - ?avail) (acc @ drop off ?f) =
                Some ((acc @ drop off ?f) @
                        take (n - ?avail) (drop 0 (concat (drop (Suc fi) fs))), fi', off')"
          and ok: "position_ok fs fi' off'"
          and pos: "total_rows (take fi' fs) + off' =
                      total_rows (take (Suc fi) fs) + 0 + (n - ?avail)"
          by blast
        have rows: "(acc @ drop off ?f) @ take (n - ?avail) (drop 0 (concat (drop (Suc fi) fs))) =
                      acc @ take n (drop off (concat (drop fi fs)))"
          using ge by (simp add: cat)
        have "total_rows (take fi' fs) + off' = total_rows (take fi fs) + off + n"
          using pos ge off by (simp add: total_rows_take_Suc [OF fi])
        with r ok rows step show ?thesis by simp
      qed
    qed
  qed
qed

lemma pull_rows_short:
  assumes "position_ok fs fi off" and "length (concat (drop fi fs)) - off < n"
  shows "pull_rows fs fi off n acc = None"
  using assms
proof (induction fs fi off n acc rule: pull_rows.induct)
  case (1 fs fi off n acc)
  from "1.prems"(2) have n: "n \<noteq> 0" by simp
  show ?case
  proof (cases "length fs \<le> fi")
    case True
    with n show ?thesis by (simp add: pull_rows.simps)
  next
    case False
    then have fi: "fi < length fs" by simp
    with "1.prems"(1) have off: "off \<le> length (fs ! fi)"
      by (simp add: position_ok_def)
    let ?avail = "length (fs ! fi) - off"
    have len: "length (concat (drop fi fs)) - off = ?avail + length (concat (drop (Suc fi) fs))"
      using off by (simp add: concat_drop_at [OF fi])
    have ge: "\<not> n < ?avail" using "1.prems"(2) len by simp
    have step: "pull_rows fs fi off n acc =
                  pull_rows fs (Suc fi) 0 (n - ?avail) (acc @ drop off (fs ! fi))"
      using n fi ge by (subst pull_rows.simps) simp
    have "length (concat (drop (Suc fi) fs)) - 0 < n - ?avail"
      using "1.prems"(2) len by simp
    from "1.IH" [OF n False refl ge position_ok_next [OF fi] this] step
    show ?thesis by simp
  qed
qed


subsection \<open>Single reads\<close>

lemma total_rows_split: "total_rows fs = total_rows (take fi fs) + total_rows (drop fi fs)"
proof -
  have "concat fs = concat (take fi fs) @ concat (drop fi fs)"
    by (metis append_take_drop_id concat_append)
  then show ?thesis by (simp add: total_rows_def)
qed

lemma drop_rows_consumed:
  "drop (rows_consumed c) (concat (files c)) =
     drop (intra_file_row_offset c) (concat (drop (file_index c) (files c)))"
proof -
  have "concat (files c) =
          concat (take (file_index c) (files c)) @ concat (drop (file_index c) (files c))"
    by (metis append_take_drop_id concat_append)
  then show ?thesis by (simp add: rows_consumed_def total_rows_def)
qed

lemma rows_remaining_eq:
  "rows_remaining c =
     length (concat (drop (file_index c) (files c))) - intra_file_row_offset c"
  using total_rows_split [of "files c" "file_index c"]
  by (simp add: rows_remaining_def rows_consumed_def total_rows_def)

lemma read_rows_enough:
  assumes "cursor_ok c" and "n \<le> rows_remaining c"
  shows "\<exists>c'. read_rows c n = (Inr (take n (drop (rows_consumed c) (concat (files c)))), c') \<and>
               cursor_ok c' \<and> files c' = files c \<and>
               rows_consumed c' = rows_consumed c + n"
proof -
  from assms have ok: "position_ok (files c) (file_index c) (intra_file_row_offset c)"
    and le: "n \<le> length (concat (drop (file_index c) (files c))) - intra_file_row_offset c"
    by (simp_all add: cursor_ok_def rows_remaining_eq)
  from pull_rows_enough [OF ok le, of "[]"] obtain fi' off' where
    r: "pull_rows (files c) (file_index c) (intra_file_row_offset c) n [] =
          Some (take n (drop (intra_file_row_offset c) (concat (drop (file_index c) (files c)))),
                fi', off')"
    and ok': "position_ok (files c) fi' off'"
    and pos: "total_rows (take fi' (files c)) + off' =
                total_rows (take (file_index c) (files c)) + intra_file_row_offset c + n"
    by auto
  let ?c' = "c\<lparr>file_index := fi', intra_file_row_offset := off'\<rparr>"
  have "read_rows c n = (Inr (take n (drop (rows_consumed c) (concat (files c)))), ?c')"
    by (simp add: read_rows_def r drop_rows_consumed)
  moreover have "cursor_ok ?c'" using ok' by (simp add: cursor_ok_def)
  moreover have "rows_consumed ?c' = rows_consumed c + n"
    using pos by (simp add: rows_consumed_def)
  ultimately show ?thesis by auto
qed

lemma read_rows_short:
  assumes "cursor_ok c" and "rows_remaining c < n"
  shows "read_rows c n = (Inl EOFError, c)"
proof -
  from assms have "pull_rows (files c) (file_index c) (intra_file_row_offset c) n [] = None"
    by (intro pull_rows_short) (simp_all add: cursor_ok_def rows_remaining_eq)
  then show ?thesis by (simp add: read_rows_def)
qed

lemma length_read:
  assumes "n \<le> rows_remaining c"
  shows "length (take n (drop (rows_consumed c) (concat (files c)))) = n"
  using assms by (simp add: rows_remaining_def total_rows_def)

lemma cursor_ok_new: "cursor_ok (new_cursor fs)"
  by (cases fs) (simp_all add: cursor_ok_def position_ok_def new_cursor_def)

lemma rows_consumed_new: "rows_consumed (new_cursor fs) = 0"
  by (simp add: rows_consumed_def new_cursor_def total_rows_def)

lemma rows_remaining_new: "rows_remaining (new_cursor fs) = total_rows fs"
  by (simp add: rows_remaining_def rows_consumed_new) (simp add: new_cursor_def)

lemma read_events_enough:
  assumes "cursor_ok (cursor rd)" and "n \<le> rows_remaining (cursor rd)"
  shows "\<exists>X Y rd'. read_events rd n = (Inr (X, Y), rd') \<and>
           has_shape X n (length (feature_columns rd)) \<and> has_shape Y n 1 \<and>
           cursor_ok (cursor rd') \<and>
           rows_consumed (cursor rd') = rows_consumed (cursor rd) + n"
proof -
  from read_rows_enough [OF assms] obtain c' where
    r: "read_rows (cursor rd) n =
          (Inr (take n (drop (rows_consumed (cursor rd)) (concat (files (cursor rd))))), c')"
    and ok: "cursor_ok c'" and pos: "rows_consumed c' = rows_consumed (cursor rd) + n"
    by blast
  show ?thesis
    using ok pos length_read [OF assms(2)]
    by (simp add: read_events_def r has_shape_def list_all_iff)
qed

text \<open>
  Claim C2. On a newly constructed reader, for every \<open>n\<close> with
  \<open>1 \<le> n \<le> total rows across all files\<close>, \<open>read_events(n)\<close> succeeds, the features array
  has shape \<open>(n, number of feature columns)\<close>, the labels array has shape \<open>(n, 1)\<close>, and the
  logical read position has advanced by exactly \<open>n\<close> rows. (For a reader in any valid
  state the same holds for every \<open>n\<close> up to the rows remaining: \<open>read_events_enough\<close>.)
\<close>

theorem read_events_shape:
  assumes "1 \<le> n" and "n \<le> total_rows fs"
  shows "\<exists>X Y rd'. read_events (new_reader fs branches label) n = (Inr (X, Y), rd') \<and>
           has_shape X n (length branches) \<and> has_shape Y n 1 \<and>
           rows_consumed (cursor rd') =
             rows_consumed (cursor (new_reader fs branches label)) + n"
proof -
  have "cursor_ok (cursor (new_reader fs branches label))"
    by (simp add: new_reader_def cursor_ok_new)
  moreover have "n \<le> rows_remaining (cursor (new_reader fs branches label))"
    using assms(2) by (simp add: new_reader_def rows_remaining_new)
  ultimately show ?thesis
    using read_events_enough [of "new_reader fs branches label" n]
    by (auto simp: new_reader_def)
qed

theorem read_events_shape_witness:
  "(1::nat) \<le> 19 \<and> 19 \<le> total_rows test_events \<and>
   (\<exists>X Y rd'. read_events (new_reader test_events [''a'', ''b''] ''label'') 19 = (Inr (X, Y), rd') \<and>
      has_shape X 19 (length [''a'', ''b'']) \<and> has_shape Y 19 1 \<and>
      rows_consumed (cursor rd') =
        rows_consumed (cursor (new_reader test_events [''a'', ''b''] ''label'')) + 19)"
proof -
  have h1: "(1::nat) \<le> 19" by simp
  have h2: "19 \<le> total_rows test_events"
    by (simp add: total_rows_def test_events_def test_files_def)
  from h1 h2 read_events_shape [OF h1 h2, of "[''a'', ''b'']" "''label''"]
  show ?thesis by blast
qed

text \<open>
  Claim C1. For every request \<open>n\<close> greater than the number of rows remaining,
  \<open>read_rows\<close> and \<open>read_events\<close> fail with the end-of-data error and leave the cursor
  position as it was, wherever in the file list the shortfall shows; a read, after the
  failed one, of any count up to the rows remaining succeeds.
\<close>

theorem read_past_end_keeps_cursor:
  assumes "cursor_ok (cursor rd)" and "rows_remaining (cursor rd) < n"
  shows "read_rows (cursor rd) n = (Inl EOFError, cursor rd) \<and>
         read_events rd n = (Inl EOFError, rd) \<and>
         (\<forall>m \<le> rows_remaining (cursor rd).
            \<exists>t c'. read_rows (snd (read_rows (cursor rd) n)) m = (Inr t, c') \<and> length t = m) \<and>
         (\<forall>m \<le> rows_remaining (cursor rd).
            \<exists>X Y rd'. read_events (snd (read_events rd n)) m = (Inr (X, Y), rd') \<and>
                       has_shape X m (length (feature_columns rd)) \<and> has_shape Y m 1)"
proof -
  have r: "read_rows (cursor rd) n = (Inl EOFError, cursor rd)"
    using assms by (rule read_rows_short)
  then have e: "read_events rd n = (Inl EOFError, rd)"
    by (simp add: read_events_def)
  have "\<exists>t c'. read_rows (cursor rd) m = (Inr t, c') \<and> length t = m"
    if "m \<le> rows_remaining (cursor rd)" for m
    using read_rows_enough [OF assms(1) that] length_read [OF that] by auto
  moreover have "\<exists>X Y rd'. read_events rd m = (Inr (X, Y), rd') \<and>
                   has_shape X m (length (feature_columns rd)) \<and> has_shape Y m 1"
    if "m \<le> rows_remaining (cursor rd)" for m
    using read_events_enough [OF assms(1) that] by blast
  ultimately show ?thesis using r e by simp
qed

theorem read_past_end_keeps_cursor_witness:
  "cursor_ok (cursor (test_reader\<lparr>cursor :=
       \<lparr>files = test_events, file_index = 0, intra_file_row_offset = 9\<rparr>\<rparr>)) \<and>
   rows_remaining \<lparr>files = test_events, file_index = 0, intra_file_row_offset = 9\<rparr> = 11 \<and>
   read_rows \<lparr>files = test_events, file_index = 0, intra_file_row_offset = 9\<rparr> 12 =
     (Inl EOFError, \<lparr>files = test_events, file_index = 0, intra_file_row_offset = 9\<rparr>) \<and>
   read_events (test_reader\<lparr>cursor :=
       \<lparr>files = test_events, file_index = 0, intra_file_row_offset = 9\<rparr>\<rparr>) 12 =
     (Inl EOFError, test_reader\<lparr>cursor :=
       \<lparr>files = test_events, file_index = 0, intra_file_row_offset = 9\<rparr>\<rparr>) \<and>
   (\<exists>t c'. read_rows (snd (read_rows
        \<lparr>files = test_events, file_index = 0, intra_file_row_offset = 9\<rparr> 12)) 11 = (Inr t, c') \<and>
      length t = 11)"
proof -
  let ?c = "\<lparr>files = test_events, file_index = 0, intra_file_row_offset = 9\<rparr>"
  let ?rd = "test_reader\<lparr>cursor := ?c\<rparr>"
  have ok: "cursor_ok (cursor ?rd)"
    by (simp add: cursor_ok_def position_ok_def test_events_def test_files_def)
  have rem: "rows_remaining ?c = 11"
    by (simp add: rows_remaining_def rows_consumed_def total_rows_def test_events_def
        test_files_def)
  then have short: "rows_remaining (cursor ?rd) < 12" by simp
  note inst = read_past_end_keeps_cursor [OF ok short]
  from inst have r: "read_rows ?c 12 = (Inl EOFError, ?c)"
    and e: "read_events ?rd 12 = (Inl EOFError, ?rd)"
    by simp_all
  from inst have
    "\<forall>m \<le> rows_remaining (cursor ?rd).
       \<exists>t c'. read_rows (snd (read_rows (cursor ?rd) 12)) m = (Inr t, c') \<and> length t = m"
    by blast
  then have "\<exists>t c'. read_rows (snd (read_rows (cursor ?rd) 12)) 11 = (Inr t, c') \<and> length t = 11"
    using rem by simp
  then have again: "\<exists>t c'. read_rows (snd (read_rows ?c 12)) 11 = (Inr t, c') \<and> length t = 11"
    by simp
  from ok rem r e again show ?thesis by blast
qed

subsection \<open>Sequences of reads\<close>

lemma read_rows_cases:
  assumes "cursor_ok c"
  shows "read_rows c n = (Inl EOFError, c) \<and> rows_remaining c < n \<or>
         n \<le> rows_remaining c \<and>
         (\<exists>c'. read_rows c n = (Inr (take n (drop (rows_consumed c) (concat (files c)))), c') \<and>
               cursor_ok c' \<and> files c' = files c \<and>
               rows_consumed c' = rows_consumed c + n)"
  using read_rows_short [OF assms, of n] read_rows_enough [OF assms, of n]
  by (cases "rows_remaining c < n") auto

lemma read_many_rows:
  assumes "cursor_ok c" and "read_many c ns = (Inr ts, c')"
  shows "concat ts = take (sum_list ns) (drop (rows_consumed c) (concat (files c))) \<and>
         map length ts = ns \<and> cursor_ok c' \<and> files c' = files c \<and>
         rows_consumed c' = rows_consumed c + sum_list ns"
  using assms
proof (induction ns arbitrary: c ts)
  case Nil
  then show ?case by simp
next
  case (Cons n ns)
  from read_rows_cases [OF Cons.prems(1), of n] Cons.prems(2)
  obtain c1 where le: "n \<le> rows_remaining c"
    and r: "read_rows c n = (Inr (take n (drop (rows_consumed c) (concat (files c)))), c1)"
    and ok1: "cursor_ok c1" and f1: "files c1 = files c"
    and p1: "rows_consumed c1 = rows_consumed c + n"
    by auto
  from Cons.prems(2) r obtain ts' where
    m: "read_many c1 ns = (Inr ts', c')"
    and ts: "ts = take n (drop (rows_consumed c) (concat (files c))) # ts'"
    by (auto split: prod.splits sum.splits)
  from Cons.IH [OF ok1 m] have
    ih: "concat ts' = take (sum_list ns) (drop (rows_consumed c1) (concat (files c1)))"
    and rest: "map length ts' = ns" "cursor_ok c'" "files c' = files c1"
      "rows_consumed c' = rows_consumed c1 + sum_list ns"
    by simp_all
  have "concat ts = take n (drop (rows_consumed c) (concat (files c))) @
                    take (sum_list ns) (drop n (drop (rows_consumed c) (concat (files c))))"
    by (simp add: ts ih f1 p1 add.commute)
  also have "\<dots> = take (n + sum_list ns) (drop (rows_consumed c) (concat (files c)))"
    by (simp add: take_add)
  finally have "concat ts = take (sum_list (n # ns)) (drop (rows_consumed c) (concat (files c)))"
    by simp
  moreover have "map length ts = n # ns"
    using rest(1) length_read [OF le] by (simp add: ts)
  ultimately show ?case using rest f1 p1 by simp
qed



text \<open>
  Claim C9. For every sequence of successful reads, the concatenation of the returned
  tables is the run of rows of the concatenated files (file-list order, on-file order
  within a file) that starts at the cursor's position and is as long as the counts
  requested, each table having the length requested: no row twice, none skipped. A single
  read that needs more rows than the current file has left, and no more than the next
  file adds, returns the tail of the current file followed by the head of the next.
\<close>

theorem reads_in_file_order:
  assumes "cursor_ok c"
  shows "(read_many c ns = (Inr ts, c') \<longrightarrow>
            concat ts = take (sum_list ns) (drop (rows_consumed c) (concat (files c))) \<and>
            map length ts = ns \<and>
            rows_consumed c' = rows_consumed c + sum_list ns) \<and>
         (Suc (file_index c) < length (files c) \<and>
          length (files c ! file_index c) - intra_file_row_offset c < n \<and>
          n \<le> length (files c ! file_index c) - intra_file_row_offset c
                + length (files c ! Suc (file_index c)) \<longrightarrow>
            fst (read_rows c n) =
              Inr (drop (intra_file_row_offset c) (files c ! file_index c) @
                   take (n - (length (files c ! file_index c) - intra_file_row_offset c))
                        (files c ! Suc (file_index c))))"
proof (intro conjI impI)
  assume "read_many c ns = (Inr ts, c')"
  from read_many_rows [OF assms this]
  show "concat ts = take (sum_list ns) (drop (rows_consumed c) (concat (files c)))"
    and "map length ts = ns"
    and "rows_consumed c' = rows_consumed c + sum_list ns"
    by simp_all
next
  let ?fi = "file_index c" and ?off = "intra_file_row_offset c"
  let ?avail = "length (files c ! ?fi) - ?off"
  assume b: "Suc ?fi < length (files c) \<and> ?avail < n \<and>
             n \<le> ?avail + length (files c ! Suc ?fi)"
  then have fi: "?fi < length (files c)" and fi': "Suc ?fi < length (files c)" by simp_all
  from assms fi have off: "?off \<le> length (files c ! ?fi)"
    by (simp add: cursor_ok_def position_ok_def)
  have cat: "concat (drop ?fi (files c)) =
               files c ! ?fi @ files c ! Suc ?fi @ concat (drop (Suc (Suc ?fi)) (files c))"
    by (simp add: concat_drop_at [OF fi] concat_drop_at [OF fi'])
  have "rows_remaining c =
          ?avail + length (files c ! Suc ?fi) + length (concat (drop (Suc (Suc ?fi)) (files c)))"
    using off by (simp add: rows_remaining_eq cat)
  with b have le: "n \<le> rows_remaining c" by linarith
  from read_rows_enough [OF assms le]
  have "fst (read_rows c n) = Inr (take n (drop ?off (concat (drop ?fi (files c)))))"
    by (auto simp: drop_rows_consumed)
  also have "take n (drop ?off (concat (drop ?fi (files c)))) =
               drop ?off (files c ! ?fi) @ take (n - ?avail) (files c ! Suc ?fi)"
  proof -
    have k: "n - ?avail - length (files c ! Suc ?fi) = 0" and l: "?avail \<le> n"
      using b by linarith+
    have "take n (drop ?off (concat (drop ?fi (files c)))) =
            take n (drop ?off (files c ! ?fi) @
                    files c ! Suc ?fi @ concat (drop (Suc (Suc ?fi)) (files c)))"
      using off by (simp only: cat drop_append) simp
    also have "\<dots> = drop ?off (files c ! ?fi) @
                       take (n - ?avail)
                         (files c ! Suc ?fi @ concat (drop (Suc (Suc ?fi)) (files c)))"
      using l by (simp only: take_append length_drop) simp
    also have "take (n - ?avail) (files c ! Suc ?fi @ concat (drop (Suc (Suc ?fi)) (files c))) =
                 take (n - ?avail) (files c ! Suc ?fi)"
      by (simp only: take_append k) simp
    finally show ?thesis .
  qed
  finally show "fst (read_rows c n) =
                  Inr (drop ?off (files c ! ?fi) @ take (n - ?avail) (files c ! Suc ?fi))" .
qed

theorem reads_in_file_order_witness:
  "cursor_ok \<lparr>files = test_files, file_index = 0, intra_file_row_offset = 9\<rparr> \<and>
   read_many \<lparr>files = test_files, file_index = 0, intra_file_row_offset = 9\<rparr> [5, 6] =
     (Inr [[9, 10, 11, 12, 13], [14, 15, 16, 17, 18, 19]],
      \<lparr>files = test_files, file_index = 2, intra_file_row_offset = 0\<rparr>) \<and>
   concat [[9, 10, 11, 12, 13], [14, 15, 16, 17, 18, 19]] =
     take (sum_list [5, 6]) (drop 9 (concat test_files)) \<and>
   fst (read_rows \<lparr>files = test_files, file_index = 0, intra_file_row_offset = 9\<rparr> 11) =
     Inr ([9] @ [10, 11, 12, 13, 14, 15, 16, 17, 18, 19])"
proof -
  let ?c = "\<lparr>files = test_files, file_index = 0, intra_file_row_offset = 9\<rparr>"
  have ok: "cursor_ok ?c"
    by (simp add: cursor_ok_def position_ok_def test_files_def)
  have run: "read_many ?c [5, 6] =
               (Inr [[9, 10, 11, 12, 13], [14, 15, 16, 17, 18, 19]],
                \<lparr>files = test_files, file_index = 2, intra_file_row_offset = 0\<rparr>)"
    by code_simp
  have pos: "rows_consumed ?c = 9"
    by (simp add: rows_consumed_def total_rows_def)
  from reads_in_file_order [OF ok, of "[5, 6]" "[[9, 10, 11, 12, 13], [14, 15, 16, 17, 18, 19]]"
      "\<lparr>files = test_files, file_index = 2, intra_file_row_offset = 0\<rparr>" 11] run pos
  show ?thesis using ok by (simp add: test_files_def)
qed

end
